theory Spec2Isabelle
  imports Main "HOL-Library.Word" "HOL-Library.Sublist"
begin

section \<open>Python values and the data the reader exposes\<close>

text \<open>
  \<^verbatim>\<open>scripts/change_architecture.py\<close> opens a container with \<^verbatim>\<open>GGUFReader\<close>, walks
  \<^verbatim>\<open>reader.fields\<close> and \<^verbatim>\<open>reader.tensors\<close> and feeds a fresh \<^verbatim>\<open>GGUFWriter\<close>.
  A Python \<^verbatim>\<open>str\<close> is the list of its code points; a byte is an 8-bit word.
\<close>

type_synonym pystr = "nat list"
type_synonym byte = "8 word"

definition py :: "string \<Rightarrow> pystr" where
  "py cs = map of_char cs"

datatype error =
    ReadError
  | IndexError
  | UnicodeDecodeError
  | DuplicateKey pystr
  | DuplicateTensorName pystr
  | InvalidShape pystr
  | ShapeMismatch pystr
  | WriterStateError

text \<open>The value type tags of the format (spec section 3, \<^verbatim>\<open>gguf.GGUFValueType\<close>).\<close>

datatype GGUFValueType =
    UINT8 | INT8 | UINT16 | INT16 | UINT32 | INT32 | FLOAT32 | BOOL
  | STRING | ARRAY | UINT64 | INT64 | FLOAT64

text \<open>
  An item of a numpy array: a fixed-width number with its dtype. Floats are kept as the
  IEEE bit pattern they were read with; no arithmetic is done on them.
\<close>

datatype npval =
    NpUInt8 "8 word" | NpInt8 "8 word"
  | NpUInt16 "16 word" | NpInt16 "16 word"
  | NpUInt32 "32 word" | NpInt32 "32 word"
  | NpUInt64 "64 word" | NpInt64 "64 word"
  | NpFloat32 "32 word" | NpFloat64 "64 word"
  | NpBool bool

type_synonym ndarray = "npval list"

text \<open>What the script hands to \<^verbatim>\<open>add_key_value\<close> as \<^verbatim>\<open>val\<close>.\<close>

datatype pyval =
    PyStr pystr
  | PyInt int
  | PyFloat32 "32 word"
  | PyFloat64 "64 word"
  | PyBool bool
  | PyNp npval
  | PyList "pyval list"

record ReaderField =
  types :: "GGUFValueType list"
  parts :: "ndarray list"
  data :: "int list"

record ReaderTensor =
  name :: pystr
  tensor_type :: nat
  shape :: "64 word list"
  data :: ndarray

text \<open>\<^verbatim>\<open>reader.fields\<close> is an ordered dictionary: \<open>fields_dict\<close> is the list of its items, in
  insertion order (the record package reserves the name \<open>fields\<close>).\<close>

record GGUFReader =
  fields_dict :: "(pystr \<times> ReaderField) list"
  tensors :: "ReaderTensor list"

subsection \<open>Python primitives used by the script\<close>

text \<open>\<^verbatim>\<open>xs[i]\<close>: a negative index counts from the end, out of range raises.\<close>

definition py_index :: "'a list \<Rightarrow> int \<Rightarrow> error + 'a" where
  "py_index xs i =
     (if 0 \<le> i \<and> i < int (length xs) then Inr (xs ! nat i)
      else if i < 0 \<and> - int (length xs) \<le> i then Inr (xs ! nat (int (length xs) + i))
      else Inl IndexError)"

text \<open>The \<open>n\<close> low bytes of a number, least significant first.\<close>

fun le_bytes :: "nat \<Rightarrow> nat \<Rightarrow> byte list" where
  "le_bytes 0 v = []"
| "le_bytes (Suc n) v = of_nat (v mod 256) # le_bytes n (v div 256)"

text \<open>\<^verbatim>\<open>bytes(arr)\<close>: the raw memory of the array (little-endian host).\<close>

fun item_bytes :: "npval \<Rightarrow> byte list" where
  "item_bytes (NpUInt8 w) = le_bytes 1 (unat w)"
| "item_bytes (NpInt8 w) = le_bytes 1 (unat w)"
| "item_bytes (NpUInt16 w) = le_bytes 2 (unat w)"
| "item_bytes (NpInt16 w) = le_bytes 2 (unat w)"
| "item_bytes (NpUInt32 w) = le_bytes 4 (unat w)"
| "item_bytes (NpInt32 w) = le_bytes 4 (unat w)"
| "item_bytes (NpUInt64 w) = le_bytes 8 (unat w)"
| "item_bytes (NpInt64 w) = le_bytes 8 (unat w)"
| "item_bytes (NpFloat32 w) = le_bytes 4 (unat w)"
| "item_bytes (NpFloat64 w) = le_bytes 8 (unat w)"
| "item_bytes (NpBool b) = [if b then 1 else 0]"

definition bytes :: "ndarray \<Rightarrow> byte list" where
  "bytes arr = concat (map item_bytes arr)"

text \<open>\<^verbatim>\<open>arr.tolist()\<close>: each item as the Python number of the same value.\<close>

fun item :: "npval \<Rightarrow> pyval" where
  "item (NpUInt8 w) = PyInt (uint w)"
| "item (NpInt8 w) = PyInt (sint w)"
| "item (NpUInt16 w) = PyInt (uint w)"
| "item (NpInt16 w) = PyInt (sint w)"
| "item (NpUInt32 w) = PyInt (uint w)"
| "item (NpInt32 w) = PyInt (sint w)"
| "item (NpUInt64 w) = PyInt (uint w)"
| "item (NpInt64 w) = PyInt (sint w)"
| "item (NpFloat32 w) = PyFloat32 w"
| "item (NpFloat64 w) = PyFloat64 w"
| "item (NpBool b) = PyBool b"

definition tolist :: "ndarray \<Rightarrow> pyval list" where
  "tolist arr = map item arr"

subsection \<open>UTF-8\<close>

text \<open>
  \<^verbatim>\<open>str(bs, encoding="utf-8")\<close> is the strict decoder: shortest form only, no
  surrogates, nothing above U+10FFFF; anything else raises \<^verbatim>\<open>UnicodeDecodeError\<close>.
\<close>

definition cont :: "nat \<Rightarrow> bool" where
  "cont b = (128 \<le> b \<and> b < 192)"

fun utf8_decode :: "nat list \<Rightarrow> error + pystr" where
  "utf8_decode [] = Inr []"
| "utf8_decode (b0 # bs) =
     (if b0 < 128 then
        (case utf8_decode bs of Inl e \<Rightarrow> Inl e | Inr cs \<Rightarrow> Inr (b0 # cs))
      else if 194 \<le> b0 \<and> b0 < 224 then
        (case bs of
           b1 # r \<Rightarrow>
             if cont b1 then
               (case utf8_decode r of Inl e \<Rightarrow> Inl e
                | Inr cs \<Rightarrow> Inr (((b0 - 192) * 64 + (b1 - 128)) # cs))
             else Inl UnicodeDecodeError
         | _ \<Rightarrow> Inl UnicodeDecodeError)
      else if 224 \<le> b0 \<and> b0 < 240 then
        (case bs of
           b1 # b2 # r \<Rightarrow>
             if cont b1 \<and> cont b2 \<and> (b0 = 224 \<longrightarrow> 160 \<le> b1) \<and> (b0 = 237 \<longrightarrow> b1 < 160) then
               (case utf8_decode r of Inl e \<Rightarrow> Inl e
                | Inr cs \<Rightarrow>
                    Inr (((b0 - 224) * 4096 + (b1 - 128) * 64 + (b2 - 128)) # cs))
             else Inl UnicodeDecodeError
         | _ \<Rightarrow> Inl UnicodeDecodeError)
      else if 240 \<le> b0 \<and> b0 < 245 then
        (case bs of
           b1 # b2 # b3 # r \<Rightarrow>
             if cont b1 \<and> cont b2 \<and> cont b3
                \<and> (b0 = 240 \<longrightarrow> 144 \<le> b1) \<and> (b0 = 244 \<longrightarrow> b1 < 144) then
               (case utf8_decode r of Inl e \<Rightarrow> Inl e
                | Inr cs \<Rightarrow>
                    Inr (((b0 - 240) * 262144 + (b1 - 128) * 4096
                          + (b2 - 128) * 64 + (b3 - 128)) # cs))
             else Inl UnicodeDecodeError
         | _ \<Rightarrow> Inl UnicodeDecodeError)
      else Inl UnicodeDecodeError)"

definition str_utf8 :: "byte list \<Rightarrow> error + pystr" where
  "str_utf8 bs = utf8_decode (map unat bs)"

text \<open>\<^verbatim>\<open>s.encode("utf-8")\<close> on one code point, for comparison with the decoder.\<close>

definition utf8_encode1 :: "nat \<Rightarrow> nat list" where
  "utf8_encode1 c =
     (if c < 128 then [c]
      else if c < 2048 then [192 + c div 64, 128 + c mod 64]
      else if c < 65536 then [224 + c div 4096, 128 + c div 64 mod 64, 128 + c mod 64]
      else [240 + c div 262144, 128 + c div 4096 mod 64, 128 + c div 64 mod 64,
            128 + c mod 64])"

definition utf8_encode :: "pystr \<Rightarrow> nat list" where
  "utf8_encode s = concat (map utf8_encode1 s)"

section \<open>The script\<close>

text \<open>
  Every effect of \<^verbatim>\<open>rename_arch\<close> after it has built the writer is a method call on
  that writer. No call returns a value the script looks at, so the script is the
  sequence of calls it issues, together with the exception at which it stops, if any.
  Progress messages on standard output are left out.
\<close>

datatype call =
    AddKeyValue pystr pyval GGUFValueType "GGUFValueType option"
  | AddTensor pystr ndarray "int list" nat
  | WriteHeader
  | WriteKVData
  | WriteTensors
  | Close

definition skip_keys :: "pystr list" where
  "skip_keys = [py ''general.architecture'', py ''GGUF.version'',
                py ''GGUF.tensor_count'', py ''GGUF.kv_count'']"

text \<open>\<^verbatim>\<open>[str(bytes(field.parts[idx]), encoding="utf-8") for idx in field.data]\<close>\<close>

fun str_items :: "ndarray list \<Rightarrow> int list \<Rightarrow> error + pyval list" where
  "str_items ps [] = Inr []"
| "str_items ps (idx # rest) =
     (case py_index ps idx of Inl e \<Rightarrow> Inl e
      | Inr p \<Rightarrow>
          (case str_utf8 (bytes p) of Inl e \<Rightarrow> Inl e
           | Inr s \<Rightarrow>
               (case str_items ps rest of Inl e \<Rightarrow> Inl e
                | Inr ss \<Rightarrow> Inr (PyStr s # ss))))"

text \<open>\<^verbatim>\<open>[pv for idx in field.data for pv in field.parts[idx].tolist()]\<close>\<close>

fun num_items :: "ndarray list \<Rightarrow> int list \<Rightarrow> error + pyval list" where
  "num_items ps [] = Inr []"
| "num_items ps (idx # rest) =
     (case py_index ps idx of Inl e \<Rightarrow> Inl e
      | Inr p \<Rightarrow>
          (case num_items ps rest of Inl e \<Rightarrow> Inl e
           | Inr vs \<Rightarrow> Inr (tolist p @ vs)))"

text \<open>The body of the metadata loop for a key that is not skipped (lines 20 to 37).\<close>

definition copy_field :: "pystr \<Rightarrow> ReaderField \<Rightarrow> error + call" where
  "copy_field key field =
     (case py_index (types field) 0 of Inl e \<Rightarrow> Inl e
      | Inr vtype \<Rightarrow>
          if vtype = STRING then
            (case py_index (parts field) (- 1) of Inl e \<Rightarrow> Inl e
             | Inr p \<Rightarrow>
                 (case str_utf8 (bytes p) of Inl e \<Rightarrow> Inl e
                  | Inr val \<Rightarrow> Inr (AddKeyValue key (PyStr val) vtype None)))
          else if vtype = ARRAY then
            (case py_index (types field) 1 of Inl e \<Rightarrow> Inl e
             | Inr sub_type \<Rightarrow>
                 if sub_type = STRING then
                   (case str_items (parts field) (ReaderField.data field) of Inl e \<Rightarrow> Inl e
                    | Inr val \<Rightarrow> Inr (AddKeyValue key (PyList val) vtype (Some sub_type)))
                 else
                   (case num_items (parts field) (ReaderField.data field) of Inl e \<Rightarrow> Inl e
                    | Inr val \<Rightarrow> Inr (AddKeyValue key (PyList val) vtype (Some sub_type))))
          else
            (case py_index (parts field) (- 1) of Inl e \<Rightarrow> Inl e
             | Inr p \<Rightarrow>
                 (case py_index p 0 of Inl e \<Rightarrow> Inl e
                  | Inr val \<Rightarrow> Inr (AddKeyValue key (PyNp val) vtype None))))"

text \<open>
  The metadata loop (lines 16 to 37): the calls issued, and the exception that ended
  the loop early, if one did.
\<close>

fun copy_metadata :: "(pystr \<times> ReaderField) list \<Rightarrow> call list \<times> error option" where
  "copy_metadata [] = ([], None)"
| "copy_metadata ((key, field) # rest) =
     (if key \<in> set skip_keys then copy_metadata rest
      else
        (case copy_field key field of
           Inl e \<Rightarrow> ([], Some e)
         | Inr c \<Rightarrow> (case copy_metadata rest of (cs, exc) \<Rightarrow> (c # cs, exc))))"

text \<open>The tensor loop (lines 41 to 47); \<^verbatim>\<open>int\<close> of an unsigned 64-bit extent is its value.\<close>

definition copy_tensor :: "ReaderTensor \<Rightarrow> call" where
  "copy_tensor tensor =
     AddTensor (name tensor) (ReaderTensor.data tensor) (map uint (shape tensor))
       (tensor_type tensor)"

definition copy_tensors :: "ReaderTensor list \<Rightarrow> call list" where
  "copy_tensors ts = map copy_tensor ts"

definition write_sequence :: "call list" where
  "write_sequence = [WriteHeader, WriteKVData, WriteTensors, Close]"

text \<open>Lines 13 to 53: everything done to the writer once it exists.\<close>

definition rename_arch_calls :: "GGUFReader \<Rightarrow> call list \<times> error option" where
  "rename_arch_calls reader =
     (case copy_metadata (fields_dict reader) of
        (kvs, Some e) \<Rightarrow> (kvs, Some e)
      | (kvs, None) \<Rightarrow> (kvs @ copy_tensors (tensors reader) @ write_sequence, None))"

fun call_key :: "call \<Rightarrow> pystr option" where
  "call_key (AddKeyValue key val vtype sub_type) = Some key"
| "call_key c = None"

subsection \<open>Reading the sequence of calls\<close>

fun is_add :: "call \<Rightarrow> bool" where
  "is_add (AddKeyValue key val vtype sub_type) = True"
| "is_add (AddTensor n d s t) = True"
| "is_add c = False"

fun is_add_tensor :: "call \<Rightarrow> bool" where
  "is_add_tensor (AddTensor n d s t) = True"
| "is_add_tensor c = False"

text \<open>The keys of the reader that are not skipped, in the reader's order.\<close>

definition copied_keys :: "(pystr \<times> ReaderField) list \<Rightarrow> pystr list" where
  "copied_keys fs = filter (\<lambda>key. key \<notin> set skip_keys) (map fst fs)"

section \<open>A small container\<close>

text \<open>
  The container of the end-to-end scenario of the spec, with a string array added:
  the version entry the reader exposes, the architecture \<open>alpha\<close>, a 32-bit integer,
  an array of two strings (the second is U+00E9 in two bytes), and one 2 by 3 tensor
  of 32-bit floats.
\<close>

definition version_field :: ReaderField where
  "version_field = \<lparr>types = [UINT32], parts = [[NpUInt32 3]], data = [0]\<rparr>"

definition arch_field :: ReaderField where
  "arch_field = \<lparr>types = [STRING],
     parts = [[NpUInt64 5], [NpUInt8 97, NpUInt8 108, NpUInt8 112, NpUInt8 104, NpUInt8 97]],
     data = [1]\<rparr>"

definition int_field :: ReaderField where
  "int_field = \<lparr>types = [INT32], parts = [[NpInt32 42]], data = [0]\<rparr>"

definition names_field :: ReaderField where
  "names_field = \<lparr>types = [ARRAY, STRING],
     parts = [[NpUInt64 1], [NpUInt8 97], [NpUInt64 2], [NpUInt8 195, NpUInt8 169]],
     data = [1, 3]\<rparr>"

definition example_fields :: "(pystr \<times> ReaderField) list" where
  "example_fields =
     [(py ''GGUF.version'', version_field),
      (py ''general.architecture'', arch_field),
      (py ''answer'', int_field),
      (py ''names'', names_field)]"

definition example_tensor :: ReaderTensor where
  "example_tensor = \<lparr>name = py ''w'', tensor_type = 0, shape = [3, 2],
     data = [NpFloat32 0, NpFloat32 1, NpFloat32 2, NpFloat32 3, NpFloat32 4, NpFloat32 5]\<rparr>"

definition example_reader :: GGUFReader where
  "example_reader = \<lparr>fields_dict = example_fields, tensors = [example_tensor]\<rparr>"





text \<open>An array of two signed 32-bit integers, the first negative.\<close>

definition dims_field :: ReaderField where
  "dims_field = \<lparr>types = [ARRAY, INT32],
     parts = [[NpUInt32 5], [NpUInt64 2], [NpInt32 (- 1)], [NpInt32 7]],
     data = [2, 3]\<rparr>"

subsection \<open>Numbers\<close>

text \<open>
  The number a stored item denotes, read off its dtype (an unsigned item is its
  binary value, a signed one its two's complement value, a float its bit pattern),
  and the number a Python value is, when it is one. They say what it means for a
  number to reach the writer unchanged, without reference to how the script gets it
  there.
\<close>

datatype number = IntVal int | Float32Val "32 word" | Float64Val "64 word" | BoolVal bool

fun np_value :: "npval \<Rightarrow> number" where
  "np_value (NpUInt8 w) = IntVal (uint w)"
| "np_value (NpUInt16 w) = IntVal (uint w)"
| "np_value (NpUInt32 w) = IntVal (uint w)"
| "np_value (NpUInt64 w) = IntVal (uint w)"
| "np_value (NpInt8 w) = IntVal (sint w)"
| "np_value (NpInt16 w) = IntVal (sint w)"
| "np_value (NpInt32 w) = IntVal (sint w)"
| "np_value (NpInt64 w) = IntVal (sint w)"
| "np_value (NpFloat32 w) = Float32Val w"
| "np_value (NpFloat64 w) = Float64Val w"
| "np_value (NpBool b) = BoolVal b"

fun py_value :: "pyval \<Rightarrow> number option" where
  "py_value (PyInt i) = Some (IntVal i)"
| "py_value (PyFloat32 w) = Some (Float32Val w)"
| "py_value (PyFloat64 w) = Some (Float64Val w)"
| "py_value (PyBool b) = Some (BoolVal b)"
| "py_value v = None"

section \<open>The writer\<close>

text \<open>
  Modelled from the spec: \<^verbatim>\<open>GGUFWriter\<close> comes from the \<^verbatim>\<open>gguf\<close> package, whose code is not
  among the sources. What follows is the writer of sections 4.2, 4.3 and 4.5 of the
  specification, as far as the script drives it. An entry of its metadata store is a
  key with a value, the type tag of the value and, for an array, the element tag.
\<close>

type_synonym MetadataEntry = "pystr \<times> pyval \<times> GGUFValueType \<times> GGUFValueType option"

text \<open>
  Modelled from the spec: a tensor the writer holds for emission (section 4.5): name,
  raw bytes, shape and dtype tag.
\<close>

type_synonym TensorEntry = "pystr \<times> byte list \<times> int list \<times> nat"

text \<open>
  Modelled from the spec: what the phases of \<^verbatim>\<open>write\<close> emit (section 4.5): the header
  with the tensor count and the entry count, the metadata entries in insertion order,
  the tensors in insertion order. Offsets and padding are left out.
\<close>

datatype emitted_part =
    HeaderPart nat nat
  | KVPart "MetadataEntry list"
  | TensorPart "TensorEntry list"

text \<open>
  Modelled from the spec: the state of a writer: where it writes, its metadata store,
  its tensor table, and what it has emitted so far.
\<close>

record GGUFWriter =
  out_path :: pystr
  kv_data :: "MetadataEntry list"
  ti_data :: "TensorEntry list"
  emitted :: "emitted_part list"

text \<open>
  Modelled from the spec: construction (section 4.5) stores the architecture label as
  the first metadata entry; nothing else is in the store and the tensor table is empty.
\<close>

definition new_writer :: "pystr \<Rightarrow> pystr \<Rightarrow> GGUFWriter" where
  "new_writer output_path arch =
     \<lparr>out_path = output_path,
      kv_data = [(py ''general.architecture'', PyStr arch, STRING, None)],
      ti_data = [], emitted = []\<rparr>"

text \<open>
  Modelled from the spec: \<^verbatim>\<open>MetadataStore.insert\<close> (section 4.2) fails with
  \<^verbatim>\<open>DuplicateKey\<close> if the key is already present; otherwise the entry goes last, since
  iteration order is insertion order.
\<close>

definition insert_entry :: "MetadataEntry \<Rightarrow> MetadataEntry list \<Rightarrow> error + MetadataEntry list" where
  "insert_entry e store =
     (if fst e \<in> set (map fst store) then Inl (DuplicateKey (fst e)) else Inr (store @ [e]))"

text \<open>
  Modelled from the spec: \<^verbatim>\<open>add_key_value\<close> delegates to \<^verbatim>\<open>insert\<close> and fails as it does
  (section 4.5).
\<close>

definition add_key_value ::
  "pystr \<Rightarrow> pyval \<Rightarrow> GGUFValueType \<Rightarrow> GGUFValueType option \<Rightarrow> GGUFWriter \<Rightarrow> error + GGUFWriter" where
  "add_key_value key val vtype sub_type w =
     (case insert_entry (key, val, vtype, sub_type) (kv_data w) of
        Inl e \<Rightarrow> Inl e
      | Inr store \<Rightarrow> Inr (w\<lparr>kv_data := store\<rparr>))"

text \<open>
  Modelled from the spec: \<^verbatim>\<open>add_tensor\<close> (sections 4.3 and 4.5) fails with
  \<^verbatim>\<open>ShapeMismatch\<close> if the product of the shape times the element size of the dtype is
  not the number of raw bytes, with \<^verbatim>\<open>DuplicateTensorName\<close> if the name is in the table,
  with \<^verbatim>\<open>InvalidShape\<close> if an extent is zero; otherwise the tensor goes last. The element
  size of a dtype tag is the parameter \<open>esz\<close>.
\<close>

definition add_tensor ::
  "(nat \<Rightarrow> nat) \<Rightarrow> pystr \<Rightarrow> ndarray \<Rightarrow> int list \<Rightarrow> nat \<Rightarrow> GGUFWriter \<Rightarrow> error + GGUFWriter" where
  "add_tensor esz nm arr raw_shape raw_dtype w =
     (if prod_list raw_shape * int (esz raw_dtype) \<noteq> int (length (bytes arr))
      then Inl (ShapeMismatch nm)
      else if nm \<in> set (map fst (ti_data w)) then Inl (DuplicateTensorName nm)
      else if 0 \<in> set raw_shape then Inl (InvalidShape nm)
      else Inr (w\<lparr>ti_data := ti_data w @ [(nm, bytes arr, raw_shape, raw_dtype)]\<rparr>))"

text \<open>
  Modelled from the spec: the phases of \<^verbatim>\<open>write\<close> (section 4.5), one per method the
  script calls. The counts of the header are taken from the tables as they are when
  the header is written; \<^verbatim>\<open>close\<close> emits nothing.
\<close>

fun run_call :: "(nat \<Rightarrow> nat) \<Rightarrow> call \<Rightarrow> GGUFWriter \<Rightarrow> error + GGUFWriter" where
  "run_call esz (AddKeyValue key val vtype sub_type) w = add_key_value key val vtype sub_type w"
| "run_call esz (AddTensor nm arr raw_shape raw_dtype) w = add_tensor esz nm arr raw_shape raw_dtype w"
| "run_call esz WriteHeader w =
     Inr (w\<lparr>emitted := emitted w @ [HeaderPart (length (ti_data w)) (length (kv_data w))]\<rparr>)"
| "run_call esz WriteKVData w = Inr (w\<lparr>emitted := emitted w @ [KVPart (kv_data w)]\<rparr>)"
| "run_call esz WriteTensors w = Inr (w\<lparr>emitted := emitted w @ [TensorPart (ti_data w)]\<rparr>)"
| "run_call esz Close w = Inr w"

text \<open>The calls of the script, made one after the other; the first that fails ends the run.\<close>

fun run_calls :: "(nat \<Rightarrow> nat) \<Rightarrow> call list \<Rightarrow> GGUFWriter \<Rightarrow> error + GGUFWriter" where
  "run_calls esz [] w = Inr w"
| "run_calls esz (c # cs) w =
     (case run_call esz c w of Inl e \<Rightarrow> Inl e | Inr w' \<Rightarrow> run_calls esz cs w')"


subsection \<open>Reading the writer's tables against the reader's\<close>










section \<open>The script as a relation between a reader and a run\<close>




section \<open>The metadata loop never copies a skipped key\<close>

lemma copy_field_key:
  "copy_field key field = Inr c \<Longrightarrow> call_key c = Some key"
  by (auto simp: copy_field_def split: sum.splits if_splits)

lemma copy_metadata_keys:
  "c \<in> set (fst (copy_metadata fs)) \<Longrightarrow>
     \<exists>key field. (key, field) \<in> set fs \<and> key \<notin> set skip_keys \<and> copy_field key field = Inr c"
proof (induction fs rule: copy_metadata.induct)
  case 1
  then show ?case by simp
next
  case (2 key field rest)
  then show ?case
    by (fastforce split: if_splits sum.splits prod.splits)
qed

text \<open>
  C2. Every call the metadata copy loop issues is an \<^verbatim>\<open>add_key_value\<close> whose key is none
  of \<^verbatim>\<open>general.architecture\<close>, \<^verbatim>\<open>GGUF.version\<close>, \<^verbatim>\<open>GGUF.tensor_count\<close>, \<^verbatim>\<open>GGUF.kv_count\<close>,
  whatever the fields of the input are and whether or not the loop runs to its end.
\<close>

theorem skipped_keys_never_added:
  "\<forall>c \<in> set (fst (copy_metadata fs)).
     \<exists>key. call_key c = Some key
       \<and> key \<noteq> py ''general.architecture'' \<and> key \<noteq> py ''GGUF.version''
       \<and> key \<noteq> py ''GGUF.tensor_count'' \<and> key \<noteq> py ''GGUF.kv_count''"
proof
  fix c assume "c \<in> set (fst (copy_metadata fs))"
  then obtain key field where k: "key \<notin> set skip_keys" "copy_field key field = Inr c"
    using copy_metadata_keys by blast
  from k(2) have "call_key c = Some key" by (rule copy_field_key)
  moreover from k(1) have "key \<noteq> py ''general.architecture'' \<and> key \<noteq> py ''GGUF.version''
       \<and> key \<noteq> py ''GGUF.tensor_count'' \<and> key \<noteq> py ''GGUF.kv_count''"
    unfolding skip_keys_def by auto
  ultimately show "\<exists>key. call_key c = Some key
       \<and> key \<noteq> py ''general.architecture'' \<and> key \<noteq> py ''GGUF.version''
       \<and> key \<noteq> py ''GGUF.tensor_count'' \<and> key \<noteq> py ''GGUF.kv_count''"
    by blast
qed

lemmas example_simps =
  example_fields_def skip_keys_def py_def copy_field_def py_index_def
  int_field_def names_field_def arch_field_def version_field_def str_utf8_def
  bytes_def cont_def tolist_def

lemma example_metadata:
  "copy_metadata example_fields =
     ([AddKeyValue (py ''answer'') (PyNp (NpInt32 42)) INT32 None,
       AddKeyValue (py ''names'') (PyList [PyStr [97], PyStr [233]]) ARRAY (Some STRING)],
      None)"
  by (simp add: example_simps)

theorem skipped_keys_never_added_witness:
  "AddKeyValue (py ''answer'') (PyNp (NpInt32 42)) INT32 None
     \<in> set (fst (copy_metadata example_fields))
   \<and> (\<exists>key. call_key (AddKeyValue (py ''answer'') (PyNp (NpInt32 42)) INT32 None) = Some key
       \<and> key \<noteq> py ''general.architecture'' \<and> key \<noteq> py ''GGUF.version''
       \<and> key \<noteq> py ''GGUF.tensor_count'' \<and> key \<noteq> py ''GGUF.kv_count'')"
proof -
  have m: "AddKeyValue (py ''answer'') (PyNp (NpInt32 42)) INT32 None
     \<in> set (fst (copy_metadata example_fields))"
    by (simp add: example_metadata)
  with skipped_keys_never_added [of example_fields] show ?thesis
    by blast
qed

section \<open>What the loops hand to the writer\<close>

lemma copy_field_is_kv: "copy_field key field = Inr c \<Longrightarrow> \<not> is_add_tensor c \<and> is_add c"
  by (auto simp: copy_field_def split: sum.splits if_splits)

lemma copy_metadata_all_kv:
  "c \<in> set (fst (copy_metadata fs)) \<Longrightarrow> \<not> is_add_tensor c \<and> is_add c"
  using copy_metadata_keys copy_field_is_kv by blast

text \<open>
  C5. The keys of the \<^verbatim>\<open>add_key_value\<close> calls follow the reader's iteration order: they
  are an initial segment of the reader's keys with the skipped ones dropped, and all
  of them when the loop raises nothing. Nothing is reordered, repeated or inserted.
\<close>

theorem metadata_order_preserved:
  "prefix (map call_key (fst (copy_metadata fs))) (map Some (copied_keys fs))
   \<and> (snd (copy_metadata fs) = None \<longrightarrow>
        map call_key (fst (copy_metadata fs)) = map Some (copied_keys fs))"
proof (induction fs rule: copy_metadata.induct)
  case 1
  then show ?case by (simp add: copied_keys_def)
next
  case (2 key field rest)
  show ?case
  proof (cases "key \<in> set skip_keys")
    case True
    with 2 show ?thesis by (simp add: copied_keys_def)
  next
    case False
    show ?thesis
    proof (cases "copy_field key field")
      case (Inl e)
      with False show ?thesis by (simp add: copied_keys_def)
    next
      case (Inr c)
      with False 2 copy_field_key [OF Inr] show ?thesis
        by (auto simp: copied_keys_def split: prod.splits)
    qed
  qed
qed

theorem metadata_order_preserved_witness:
  "snd (copy_metadata example_fields) = None
   \<and> copied_keys example_fields = [py ''answer'', py ''names'']
   \<and> map call_key (fst (copy_metadata example_fields)) = [Some (py ''answer''), Some (py ''names'')]"
proof -
  have s: "snd (copy_metadata example_fields) = None"
    by (simp add: example_metadata)
  have k: "copied_keys example_fields = [py ''answer'', py ''names'']"
    by (simp add: copied_keys_def example_fields_def skip_keys_def py_def)
  from metadata_order_preserved [of example_fields] s k show ?thesis
    by simp
qed





text \<open>
  C6. The calls of a run are a block of \<^verbatim>\<open>add_key_value\<close> and \<^verbatim>\<open>add_tensor\<close> calls
  followed, when nothing was raised, by exactly \<^verbatim>\<open>write_header_to_file\<close>,
  \<^verbatim>\<open>write_kv_data_to_file\<close>, \<^verbatim>\<open>write_tensors_to_file\<close>, \<^verbatim>\<open>close\<close> in that order; a run
  that stops on an exception has issued additions only. No addition follows or
  separates the write calls.
\<close>

theorem adds_precede_writes:
  "\<exists>adds. (\<forall>c \<in> set adds. is_add c)
     \<and> (case snd (rename_arch_calls reader) of
          None \<Rightarrow> fst (rename_arch_calls reader) = adds @ [WriteHeader, WriteKVData, WriteTensors, Close]
        | Some e \<Rightarrow> fst (rename_arch_calls reader) = adds)"
proof -
  obtain kvs exc where k: "copy_metadata (fields_dict reader) = (kvs, exc)"
    by (cases "copy_metadata (fields_dict reader)") auto
  have kv: "\<forall>c \<in> set kvs. is_add c"
    using copy_metadata_all_kv [of _ "fields_dict reader"] k by auto
  have t: "\<forall>c \<in> set (copy_tensors (tensors reader)). is_add c"
    by (auto simp: copy_tensors_def copy_tensor_def)
  show ?thesis
  proof (cases exc)
    case None
    with k kv t show ?thesis
      by (intro exI [of _ "kvs @ copy_tensors (tensors reader)"])
         (auto simp: rename_arch_calls_def write_sequence_def)
  next
    case (Some e)
    with k kv show ?thesis
      by (intro exI [of _ kvs]) (auto simp: rename_arch_calls_def)
  qed
qed

theorem adds_precede_writes_witness:
  "snd (rename_arch_calls example_reader) = None
   \<and> (\<exists>adds. (\<forall>c \<in> set adds. is_add c) \<and> length adds = 3
        \<and> fst (rename_arch_calls example_reader)
            = adds @ [WriteHeader, WriteKVData, WriteTensors, Close])"
proof -
  have c: "rename_arch_calls example_reader =
    ([AddKeyValue (py ''answer'') (PyNp (NpInt32 42)) INT32 None,
      AddKeyValue (py ''names'') (PyList [PyStr [97], PyStr [233]]) ARRAY (Some STRING),
      copy_tensor example_tensor, WriteHeader, WriteKVData, WriteTensors, Close], None)"
    by (simp add: rename_arch_calls_def example_reader_def example_metadata
        copy_tensors_def write_sequence_def)
  have s: "snd (rename_arch_calls example_reader) = None"
    by (simp add: c)
  from adds_precede_writes [of example_reader] obtain adds where
    a: "\<forall>c \<in> set adds. is_add c"
    and b: "fst (rename_arch_calls example_reader)
          = adds @ [WriteHeader, WriteKVData, WriteTensors, Close]"
    unfolding s by auto
  from b have "length (fst (rename_arch_calls example_reader)) = length adds + 4"
    by simp
  then have "length adds = 3" by (simp add: c)
  with a b s show ?thesis by blast
qed

lemma str_items_sound:
  "str_items ps idxs = Inr vs \<Longrightarrow>
     \<exists>qs ss. list_all2 (\<lambda>idx q. py_index ps idx = Inr q) idxs qs
       \<and> list_all2 (\<lambda>q s. str_utf8 (bytes q) = Inr s) qs ss \<and> vs = map PyStr ss"
proof (induction idxs arbitrary: vs)
  case Nil
  then show ?case by simp
next
  case (Cons idx rest)
  from Cons.prems obtain q s vs' where
    q: "py_index ps idx = Inr q" and s: "str_utf8 (bytes q) = Inr s"
    and r: "str_items ps rest = Inr vs'" and v: "vs = PyStr s # vs'"
    by (auto split: sum.splits)
  from Cons.IH [OF r] obtain qs ss where
    "list_all2 (\<lambda>idx q. py_index ps idx = Inr q) rest qs"
    "list_all2 (\<lambda>q s. str_utf8 (bytes q) = Inr s) qs ss" "vs' = map PyStr ss"
    by blast
  with q s v show ?case
    by (intro exI [of _ "q # qs"] exI [of _ "s # ss"]) simp
qed

lemma num_items_sound:
  "num_items ps idxs = Inr vs \<Longrightarrow>
     \<exists>qs. list_all2 (\<lambda>idx q. py_index ps idx = Inr q) idxs qs
       \<and> vs = concat (map tolist qs)"
proof (induction idxs arbitrary: vs)
  case Nil
  then show ?case by simp
next
  case (Cons idx rest)
  from Cons.prems obtain q vs' where
    q: "py_index ps idx = Inr q"
    and r: "num_items ps rest = Inr vs'" and v: "vs = tolist q @ vs'"
    by (auto split: sum.splits)
  from Cons.IH [OF r] obtain qs where
    "list_all2 (\<lambda>idx q. py_index ps idx = Inr q) rest qs" "vs' = concat (map tolist qs)"
    by blast
  with q v show ?case
    by (intro exI [of _ "q # qs"]) simp
qed

lemma item_value: "py_value (item x) = Some (np_value x)"
  by (cases x) simp_all

lemma tolist_values: "map py_value (tolist q) = map (\<lambda>x. Some (np_value x)) q"
  by (simp add: tolist_def item_value)

lemma tolist_concat_values:
  "map py_value (concat (map tolist qs)) = map (\<lambda>x. Some (np_value x)) (concat qs)"
  by (induction qs) (simp_all add: tolist_values)

text \<open>
  C7. When an entry whose first type tag is ARRAY is copied, the call carries the key,
  the tag ARRAY and the entry's own element tag \<^verbatim>\<open>types[1]\<close>. Its value lists, in the
  order of \<^verbatim>\<open>field.data\<close>, the parts those indices select: for the element tag STRING
  one string per part, the UTF-8 decoding of the part's bytes; for any other element
  tag one Python number per stored item of those parts, as many as there are items,
  in their order, each denoting the number the item denotes.
\<close>

theorem array_entry_copied:
  "py_index (types field) 0 = Inr ARRAY \<Longrightarrow> copy_field key field = Inr c \<Longrightarrow>
     \<exists>sub_type qs. py_index (types field) 1 = Inr sub_type
       \<and> list_all2 (\<lambda>idx q. py_index (parts field) idx = Inr q) (ReaderField.data field) qs
       \<and> (if sub_type = STRING
          then \<exists>ss. list_all2 (\<lambda>q s. str_utf8 (bytes q) = Inr s) qs ss
                 \<and> c = AddKeyValue key (PyList (map PyStr ss)) ARRAY (Some sub_type)
          else \<exists>vs. c = AddKeyValue key (PyList vs) ARRAY (Some sub_type)
                 \<and> vs = concat (map tolist qs)
                 \<and> length vs = length (concat qs)
                 \<and> map py_value vs = map (\<lambda>x. Some (np_value x)) (concat qs))"
proof -
  assume t: "py_index (types field) 0 = Inr ARRAY" and c: "copy_field key field = Inr c"
  from t c obtain sub_type where s: "py_index (types field) 1 = Inr sub_type"
    by (auto simp: copy_field_def split: sum.splits if_splits)
  show ?thesis
  proof (cases "sub_type = STRING")
    case True
    with t c s obtain val where
      v: "str_items (parts field) (ReaderField.data field) = Inr val"
      and e: "c = AddKeyValue key (PyList val) ARRAY (Some sub_type)"
      by (auto simp: copy_field_def split: sum.splits)
    from str_items_sound [OF v] True s e show ?thesis by auto
  next
    case False
    with t c s obtain val where
      v: "num_items (parts field) (ReaderField.data field) = Inr val"
      and e: "c = AddKeyValue key (PyList val) ARRAY (Some sub_type)"
      by (auto simp: copy_field_def split: sum.splits)
    from num_items_sound [OF v] obtain qs where
      q: "list_all2 (\<lambda>idx q. py_index (parts field) idx = Inr q) (ReaderField.data field) qs"
      and w: "val = concat (map tolist qs)"
      by blast
    have m: "map py_value val = map (\<lambda>x. Some (np_value x)) (concat qs)"
      by (simp add: w tolist_concat_values)
    from m have "length (map py_value val) = length (map (\<lambda>x. Some (np_value x)) (concat qs))"
      by (rule arg_cong)
    then have l: "length val = length (concat qs)"
      by simp
    from False s q e w l m show ?thesis
      by (intro exI [of _ sub_type] exI [of _ qs]) simp
  qed
qed

text \<open>
  On an array of two strings and on an array of two signed integers: the strings
  \<open>a\<close> and U+00E9 are passed, and the integers \<open>-1\<close> and \<open>7\<close>.
\<close>

theorem array_entry_copied_witness:
  "py_index (types names_field) 0 = Inr ARRAY
   \<and> copy_field (py ''names'') names_field
       = Inr (AddKeyValue (py ''names'') (PyList [PyStr [97], PyStr [233]]) ARRAY (Some STRING))
   \<and> (\<exists>qs ss. list_all2 (\<lambda>idx q. py_index (parts names_field) idx = Inr q)
                 (ReaderField.data names_field) qs
        \<and> list_all2 (\<lambda>q s. str_utf8 (bytes q) = Inr s) qs ss
        \<and> [PyStr [97], PyStr [233]] = map PyStr ss)
   \<and> py_index (types dims_field) 0 = Inr ARRAY
   \<and> copy_field (py ''dims'') dims_field
       = Inr (AddKeyValue (py ''dims'') (PyList [PyInt (- 1), PyInt 7]) ARRAY (Some INT32))
   \<and> (\<exists>qs. list_all2 (\<lambda>idx q. py_index (parts dims_field) idx = Inr q)
              (ReaderField.data dims_field) qs
        \<and> length (concat qs) = 2
        \<and> map (\<lambda>x. Some (np_value x)) (concat qs) = [Some (IntVal (- 1)), Some (IntVal 7)])"
proof -
  have t: "py_index (types names_field) 0 = Inr ARRAY"
    by (simp add: names_field_def py_index_def)
  have t1: "py_index (types names_field) 1 = Inr STRING"
    by (simp add: names_field_def py_index_def)
  have c: "copy_field (py ''names'') names_field
       = Inr (AddKeyValue (py ''names'') (PyList [PyStr [97], PyStr [233]]) ARRAY (Some STRING))"
    by (simp add: example_simps)
  have u: "py_index (types dims_field) 0 = Inr ARRAY"
    by (simp add: dims_field_def py_index_def)
  have u1: "py_index (types dims_field) 1 = Inr INT32"
    by (simp add: dims_field_def py_index_def)
  have d: "copy_field (py ''dims'') dims_field
       = Inr (AddKeyValue (py ''dims'') (PyList [PyInt (- 1), PyInt 7]) ARRAY (Some INT32))"
    by (simp add: copy_field_def dims_field_def py_index_def tolist_def)
  have a: "\<exists>qs ss. list_all2 (\<lambda>idx q. py_index (parts names_field) idx = Inr q)
                 (ReaderField.data names_field) qs
        \<and> list_all2 (\<lambda>q s. str_utf8 (bytes q) = Inr s) qs ss
        \<and> [PyStr [97], PyStr [233]] = map PyStr ss"
    using array_entry_copied [OF t c] t1 by auto
  have b: "\<exists>qs. list_all2 (\<lambda>idx q. py_index (parts dims_field) idx = Inr q)
              (ReaderField.data dims_field) qs
        \<and> length (concat qs) = 2
        \<and> map (\<lambda>x. Some (np_value x)) (concat qs) = [Some (IntVal (- 1)), Some (IntVal 7)]"
    using array_entry_copied [OF u d] u1 by auto
  from t c a u d b show ?thesis
    by blast
qed

section \<open>Strings\<close>

text \<open>Decoding accepts exactly what encoding produces: re-encoding a decoded string
  gives the bytes back.\<close>

lemma digits2: "b < 64 \<Longrightarrow> (a * 64 + b) div 64 = a \<and> (a * 64 + b) mod 64 = (b::nat)"
  by simp

lemma digits3: "b < 64 \<Longrightarrow> c < 64 \<Longrightarrow>
  (a * 4096 + b * 64 + c) div 4096 = a \<and> (a * 4096 + b * 64 + c) div 64 mod 64 = b
  \<and> (a * 4096 + b * 64 + c) mod 64 = (c::nat)"
proof -
  assume b: "b < 64" and c: "c < 64"
  define v where "v = a * 4096 + b * 64 + c"
  have e: "v = (a * 64 + b) * 64 + c" by (simp add: v_def)
  have l: "v div 64 = a * 64 + b" "v mod 64 = c"
    using digits2 [OF c, of "a * 64 + b"] by (simp_all only: e)
  have m: "v div 64 div 64 = a" "v div 64 mod 64 = b"
    using digits2 [OF b, of a] by (simp_all only: l)
  have "v div 4096 = v div 64 div 64" by (simp add: div_mult2_eq)
  with l m have "v div 4096 = a \<and> v div 64 mod 64 = b \<and> v mod 64 = c" by simp
  then show ?thesis unfolding v_def .
qed

lemma digits4: "b < 64 \<Longrightarrow> c < 64 \<Longrightarrow> d < 64 \<Longrightarrow>
  (a * 262144 + b * 4096 + c * 64 + d) div 262144 = a
  \<and> (a * 262144 + b * 4096 + c * 64 + d) div 4096 mod 64 = b
  \<and> (a * 262144 + b * 4096 + c * 64 + d) div 64 mod 64 = c
  \<and> (a * 262144 + b * 4096 + c * 64 + d) mod 64 = (d::nat)"
proof -
  assume b: "b < 64" and c: "c < 64" and d: "d < 64"
  define v where "v = a * 262144 + b * 4096 + c * 64 + d"
  have e: "v = (a * 64 + b) * 4096 + c * 64 + d" by (simp add: v_def)
  have l: "v div 4096 = a * 64 + b" "v div 64 mod 64 = c" "v mod 64 = d"
    using digits3 [OF c d, of "a * 64 + b"] by (simp_all only: e)
  have m: "v div 4096 div 64 = a" "v div 4096 mod 64 = b"
    using digits2 [OF b, of a] by (simp_all only: l)
  have "v div 262144 = v div 4096 div 64" by (simp add: div_mult2_eq)
  with l m have "v div 262144 = a \<and> v div 4096 mod 64 = b \<and> v div 64 mod 64 = c
    \<and> v mod 64 = d" by simp
  then show ?thesis unfolding v_def .
qed

lemma enc2: "194 \<le> b0 \<Longrightarrow> b0 < 224 \<Longrightarrow> cont b1 \<Longrightarrow>
  utf8_encode1 ((b0 - 192) * 64 + (b1 - 128)) = [b0, b1]"
proof -
  assume a: "194 \<le> b0" "b0 < 224" "cont b1"
  define x where "x = b0 - 192"
  define y where "y = b1 - 128"
  have x: "b0 = 192 + x" "2 \<le> x" "x < 32" using a by (auto simp: x_def)
  have y: "b1 = 128 + y" "y < 64" using a by (auto simp: y_def cont_def)
  have r: "128 \<le> x * 64 + y" "x * 64 + y < 2048" using x y by auto
  show ?thesis using r digits2 [OF y(2), of x]
    by (simp add: utf8_encode1_def x(1) y(1))
qed

lemma enc3: "224 \<le> b0 \<Longrightarrow> b0 < 240 \<Longrightarrow> cont b1 \<Longrightarrow> cont b2 \<Longrightarrow> (b0 = 224 \<longrightarrow> 160 \<le> b1) \<Longrightarrow>
  utf8_encode1 ((b0 - 224) * 4096 + (b1 - 128) * 64 + (b2 - 128)) = [b0, b1, b2]"
proof -
  assume a: "224 \<le> b0" "b0 < 240" "cont b1" "cont b2" "b0 = 224 \<longrightarrow> 160 \<le> b1"
  define x where "x = b0 - 224"
  define y where "y = b1 - 128"
  define z where "z = b2 - 128"
  have x: "b0 = 224 + x" "x < 16" using a by (auto simp: x_def)
  have y: "b1 = 128 + y" "y < 64" using a by (auto simp: y_def cont_def)
  have z: "b2 = 128 + z" "z < 64" using a by (auto simp: z_def cont_def)
  have "x = 0 \<longrightarrow> 32 \<le> y" using a x y by auto
  then have r: "2048 \<le> x * 4096 + y * 64 + z" by (cases "x = 0") auto
  have r2: "x * 4096 + y * 64 + z < 65536" using x y z by auto
  show ?thesis using r r2 digits3 [OF y(2) z(2), of x]
    by (simp add: utf8_encode1_def x(1) y(1) z(1))
qed

lemma enc4: "240 \<le> b0 \<Longrightarrow> b0 < 245 \<Longrightarrow> cont b1 \<Longrightarrow> cont b2 \<Longrightarrow> cont b3 \<Longrightarrow> (b0 = 240 \<longrightarrow> 144 \<le> b1) \<Longrightarrow>
  utf8_encode1 ((b0 - 240) * 262144 + (b1 - 128) * 4096 + (b2 - 128) * 64 + (b3 - 128)) = [b0, b1, b2, b3]"
proof -
  assume a: "240 \<le> b0" "b0 < 245" "cont b1" "cont b2" "cont b3" "b0 = 240 \<longrightarrow> 144 \<le> b1"
  define x where "x = b0 - 240"
  define y where "y = b1 - 128"
  define z where "z = b2 - 128"
  define u where "u = b3 - 128"
  have x: "b0 = 240 + x" "x < 5" using a by (auto simp: x_def)
  have y: "b1 = 128 + y" "y < 64" using a by (auto simp: y_def cont_def)
  have z: "b2 = 128 + z" "z < 64" using a by (auto simp: z_def cont_def)
  have u: "b3 = 128 + u" "u < 64" using a by (auto simp: u_def cont_def)
  have "x = 0 \<longrightarrow> 16 \<le> y" using a x y by auto
  then have r: "65536 \<le> x * 262144 + y * 4096 + z * 64 + u" by (cases "x = 0") auto
  show ?thesis using r digits4 [OF y(2) z(2) u(2), of x]
    by (simp add: utf8_encode1_def x(1) y(1) z(1) u(1))
qed

lemma utf8_encode_decode:
  "utf8_decode bs = Inr s \<Longrightarrow> utf8_encode s = bs"
proof (induction bs arbitrary: s rule: utf8_decode.induct)
  case 1
  then show ?case by (simp add: utf8_encode_def)
next
  case (2 b0 bs)
  show ?case
  proof (cases "b0 < 128")
    case True
    with "2.prems" obtain cs where "utf8_decode bs = Inr cs" "s = b0 # cs"
      by (auto split: sum.splits)
    with "2.IH"(1) True show ?thesis by (simp add: utf8_encode_def utf8_encode1_def)
  next
    case n1: False
    show ?thesis
    proof (cases "194 \<le> b0 \<and> b0 < 224")
      case True
      with n1 "2.prems" obtain b1 r cs where
        h: "bs = b1 # r" "cont b1" "utf8_decode r = Inr cs"
           "s = ((b0 - 192) * 64 + (b1 - 128)) # cs"
        by (auto split: sum.splits list.splits if_splits)
      from "2.IH"(2) [OF n1 True h(1) h(2) h(3)] have "utf8_encode cs = r" .
      with h True enc2 [of b0 b1] show ?thesis by (simp add: utf8_encode_def)
    next
      case n2: False
      show ?thesis
      proof (cases "224 \<le> b0 \<and> b0 < 240")
        case True
        with n1 n2 "2.prems" obtain b1 b2 r cs where
          h: "bs = b1 # b2 # r"
             "cont b1 \<and> cont b2 \<and> (b0 = 224 \<longrightarrow> 160 \<le> b1) \<and> (b0 = 237 \<longrightarrow> b1 < 160)"
             "utf8_decode r = Inr cs"
             "s = ((b0 - 224) * 4096 + (b1 - 128) * 64 + (b2 - 128)) # cs"
          by (auto split: sum.splits list.splits if_splits)
        from "2.IH"(3) [OF n1 n2 True h(1) _ h(2) h(3)] have "utf8_encode cs = r" by simp
        with h True enc3 [of b0 b1 b2] show ?thesis by (simp add: utf8_encode_def)
      next
        case n3: False
        with n1 n2 "2.prems" have t: "240 \<le> b0 \<and> b0 < 245"
          by (auto split: if_splits)
        with n1 n2 n3 "2.prems" obtain b1 b2 b3 r cs where
          h: "bs = b1 # b2 # b3 # r"
             "cont b1 \<and> cont b2 \<and> cont b3 \<and> (b0 = 240 \<longrightarrow> 144 \<le> b1) \<and> (b0 = 244 \<longrightarrow> b1 < 144)"
             "utf8_decode r = Inr cs"
             "s = ((b0 - 240) * 262144 + (b1 - 128) * 4096 + (b2 - 128) * 64 + (b3 - 128)) # cs"
          by (auto split: sum.splits list.splits if_splits)
        from "2.IH"(4) [OF n1 n2 n3 t h(1) _ _ h(2) h(3)] have "utf8_encode cs = r" by simp
        with h t enc4 [of b0 b1 b2 b3] show ?thesis by (simp add: utf8_encode_def)
      qed
    qed
  qed
qed

lemma py_index_last:
  "py_index xs (- 1) = Inr p \<Longrightarrow> xs \<noteq> [] \<and> p = last xs"
  by (cases xs rule: rev_cases) (auto simp: py_index_def nth_append split: if_splits)

text \<open>
  C8. When an entry whose first type tag is STRING is copied, the call carries the key,
  the tag STRING and no element tag, and its value is the UTF-8 decoding of the bytes
  of the entry's last part: the string whose UTF-8 encoding is exactly those bytes.
\<close>

theorem string_entry_copied:
  "py_index (types field) 0 = Inr STRING \<Longrightarrow> copy_field key field = Inr c \<Longrightarrow>
     \<exists>s. parts field \<noteq> []
       \<and> str_utf8 (bytes (last (parts field))) = Inr s
       \<and> utf8_encode s = map unat (bytes (last (parts field)))
       \<and> c = AddKeyValue key (PyStr s) STRING None"
proof -
  assume t: "py_index (types field) 0 = Inr STRING" and c: "copy_field key field = Inr c"
  from t c obtain p s where
    p: "py_index (parts field) (- 1) = Inr p" and s: "str_utf8 (bytes p) = Inr s"
    and v: "c = AddKeyValue key (PyStr s) STRING None"
    by (auto simp: copy_field_def split: sum.splits)
  from p have l: "parts field \<noteq> []" "p = last (parts field)"
    using py_index_last [OF p] by simp_all
  from s have "utf8_encode s = map unat (bytes p)"
    unfolding str_utf8_def by (rule utf8_encode_decode)
  with l s v show ?thesis by blast
qed

theorem string_entry_copied_witness:
  "py_index (types arch_field) 0 = Inr STRING
   \<and> copy_field (py ''general.name'') arch_field
       = Inr (AddKeyValue (py ''general.name'') (PyStr (py ''alpha'')) STRING None)
   \<and> utf8_encode (py ''alpha'') = map unat (bytes (last (parts arch_field)))"
proof -
  have t: "py_index (types arch_field) 0 = Inr STRING"
    by (simp add: arch_field_def py_index_def)
  have c: "copy_field (py ''general.name'') arch_field
       = Inr (AddKeyValue (py ''general.name'') (PyStr (py ''alpha'')) STRING None)"
    by (simp add: example_simps)
  from string_entry_copied [OF t c] obtain s where
    e: "utf8_encode s = map unat (bytes (last (parts arch_field)))"
    and v: "AddKeyValue (py ''general.name'') (PyStr (py ''alpha'')) STRING None
              = AddKeyValue (py ''general.name'') (PyStr s) STRING None"
    by blast
  from v have "s = py ''alpha''" by simp
  with e t c show ?thesis by simp
qed

section \<open>Keys reach the writer once\<close>

lemma copy_metadata_distinct:
  "distinct (map fst fs) \<Longrightarrow> distinct (map call_key (fst (copy_metadata fs)))"
proof (induction fs rule: copy_metadata.induct)
  case 1
  then show ?case by simp
next
  case (2 key field rest)
  show ?case
  proof (cases "key \<in> set skip_keys")
    case True
    with 2 show ?thesis by simp
  next
    case False
    show ?thesis
    proof (cases "copy_field key field")
      case (Inl e)
      with False show ?thesis by simp
    next
      case (Inr c)
      have k: "call_key c = Some key" using Inr by (rule copy_field_key)
      have n: "Some key \<notin> set (map call_key (fst (copy_metadata rest)))"
      proof
        assume "Some key \<in> set (map call_key (fst (copy_metadata rest)))"
        then obtain c' where c': "c' \<in> set (fst (copy_metadata rest))" "call_key c' = Some key"
          by auto
        from copy_metadata_keys [OF c'(1)] obtain key' field' where
          f: "(key', field') \<in> set rest" "copy_field key' field' = Inr c'"
          by blast
        from copy_field_key [OF f(2)] c'(2) have "key' = key" by simp
        with f(1) have "key \<in> set (map fst rest)" by force
        with "2.prems" show False by simp
      qed
      from 2 False Inr have "distinct (map call_key (fst (copy_metadata rest)))"
        by simp
      with False Inr k n show ?thesis
        by (auto split: prod.splits)
    qed
  qed
qed

lemma copy_metadata_not_arch:
  "Some (py ''general.architecture'') \<notin> set (map call_key (fst (copy_metadata fs)))"
proof
  assume "Some (py ''general.architecture'') \<in> set (map call_key (fst (copy_metadata fs)))"
  then obtain c where c: "c \<in> set (fst (copy_metadata fs))"
    "call_key c = Some (py ''general.architecture'')"
    by auto
  from copy_metadata_keys [OF c(1)] obtain key field where
    f: "key \<notin> set skip_keys" "copy_field key field = Inr c"
    by blast
  from copy_field_key [OF f(2)] c(2) have "key = py ''general.architecture''" by simp
  with f(1) show False by (simp add: skip_keys_def)
qed

lemma run_key_values:
  "\<forall>c \<in> set cs. \<not> is_add_tensor c \<and> is_add c \<Longrightarrow>
   distinct (map call_key cs) \<Longrightarrow>
   \<forall>c \<in> set cs. \<forall>key. call_key c = Some key \<longrightarrow> key \<notin> set (map fst (kv_data w)) \<Longrightarrow>
   \<exists>w'. run_calls esz cs w = Inr w'
     \<and> map (\<lambda>e. Some (fst e)) (kv_data w') = map (\<lambda>e. Some (fst e)) (kv_data w) @ map call_key cs
     \<and> ti_data w' = ti_data w \<and> emitted w' = emitted w \<and> out_path w' = out_path w"
proof (induction cs arbitrary: w)
  case Nil
  then show ?case by simp
next
  case (Cons c cs)
  from Cons.prems(1) obtain key val vtype sub_type where
    c: "c = AddKeyValue key val vtype sub_type"
    by (cases c) auto
  from Cons.prems(3) c have k: "key \<notin> set (map fst (kv_data w))"
    by simp
  define w1 where "w1 = w\<lparr>kv_data := kv_data w @ [(key, val, vtype, sub_type)]\<rparr>"
  from k have r: "run_call esz c w = Inr w1"
    by (simp add: c add_key_value_def insert_entry_def w1_def)
  have a: "\<forall>c \<in> set cs. \<not> is_add_tensor c \<and> is_add c"
    using Cons.prems(1) by simp
  have d: "distinct (map call_key cs)"
    using Cons.prems(2) by simp
  have n: "\<forall>c' \<in> set cs. \<forall>key'. call_key c' = Some key' \<longrightarrow> key' \<notin> set (map fst (kv_data w1))"
  proof (intro ballI allI impI)
    fix c' key' assume c': "c' \<in> set cs" and k': "call_key c' = Some key'"
    from Cons.prems(3) c' k' have "key' \<notin> set (map fst (kv_data w))" by simp
    moreover from Cons.prems(2) c' k' c have "key' \<noteq> key" by force
    ultimately show "key' \<notin> set (map fst (kv_data w1))" by (simp add: w1_def)
  qed
  from Cons.IH [OF a d n] obtain w' where
    w': "run_calls esz cs w1 = Inr w'"
    "map (\<lambda>e. Some (fst e)) (kv_data w') = map (\<lambda>e. Some (fst e)) (kv_data w1) @ map call_key cs"
    "ti_data w' = ti_data w1" "emitted w' = emitted w1" "out_path w' = out_path w1"
    by blast
  from r w' show ?case
    by (intro exI [of _ w']) (simp add: w1_def c)
qed

text \<open>
  C9. On a reader whose keys are pairwise distinct, every \<^verbatim>\<open>add_key_value\<close> call of the
  metadata loop succeeds on the fresh writer, whatever the output path and the new
  architecture are: none fails with \<^verbatim>\<open>DuplicateKey\<close>. Afterwards the store holds
  \<^verbatim>\<open>general.architecture\<close>, put there by the constructor, followed by the keys of the
  calls, and no key twice.
\<close>

theorem copy_loop_no_duplicate_key:
  "distinct (map fst (fields_dict reader)) \<Longrightarrow>
     \<exists>w. run_calls esz (fst (copy_metadata (fields_dict reader))) (new_writer output_path new_arch)
            = Inr w
       \<and> map (\<lambda>e. Some (fst e)) (kv_data w)
            = Some (py ''general.architecture'') # map call_key (fst (copy_metadata (fields_dict reader)))
       \<and> distinct (map fst (kv_data w))"
proof -
  assume d: "distinct (map fst (fields_dict reader))"
  let ?cs = "fst (copy_metadata (fields_dict reader))"
  let ?w0 = "new_writer output_path new_arch"
  have a: "\<forall>c \<in> set ?cs. \<not> is_add_tensor c \<and> is_add c"
    using copy_metadata_all_kv by blast
  have dc: "distinct (map call_key ?cs)"
    using d by (rule copy_metadata_distinct)
  have n: "\<forall>c \<in> set ?cs. \<forall>key. call_key c = Some key \<longrightarrow> key \<notin> set (map fst (kv_data ?w0))"
  proof (intro ballI allI impI)
    fix c key assume c: "c \<in> set ?cs" and k: "call_key c = Some key"
    from c k have "Some key \<in> set (map call_key ?cs)" by force
    with copy_metadata_not_arch [of "fields_dict reader"] have "key \<noteq> py ''general.architecture''"
      by auto
    then show "key \<notin> set (map fst (kv_data ?w0))" by (simp add: new_writer_def)
  qed
  from run_key_values [OF a dc n, of esz] obtain w where
    r: "run_calls esz ?cs ?w0 = Inr w"
    and m: "map (\<lambda>e. Some (fst e)) (kv_data w)
          = map (\<lambda>e. Some (fst e)) (kv_data ?w0) @ map call_key ?cs"
    by blast
  from m have m': "map (\<lambda>e. Some (fst e)) (kv_data w)
          = Some (py ''general.architecture'') # map call_key ?cs"
    by (simp add: new_writer_def)
  have "distinct (Some (py ''general.architecture'') # map call_key ?cs)"
    using dc copy_metadata_not_arch [of "fields_dict reader"] by simp
  with m' have ds: "distinct (map (\<lambda>e. Some (fst e)) (kv_data w))" by simp
  have e: "map (\<lambda>e. Some (fst e)) (kv_data w) = map Some (map fst (kv_data w))"
    by (simp add: comp_def)
  from ds have "distinct (map Some (map fst (kv_data w)))" unfolding e .
  then have "distinct (map fst (kv_data w))"
    using distinct_map [of Some "map fst (kv_data w)"] by blast
  with r m' show ?thesis
    by (intro exI [of _ w]) simp
qed

text \<open>
  On the small container, written to \<open>out.gguf\<close> as \<open>beta\<close>: the store ends with the
  keys \<open>general.architecture\<close>, \<open>answer\<close>, \<open>names\<close>.
\<close>

theorem copy_loop_no_duplicate_key_witness:
  "distinct (map fst (fields_dict example_reader))
   \<and> (\<exists>w. run_calls (\<lambda>t. 4) (fst (copy_metadata (fields_dict example_reader)))
              (new_writer (py ''out.gguf'') (py ''beta'')) = Inr w
        \<and> map (\<lambda>e. Some (fst e)) (kv_data w)
             = [Some (py ''general.architecture''), Some (py ''answer''), Some (py ''names'')]
        \<and> distinct (map fst (kv_data w)))"
proof -
  have d: "distinct (map fst (fields_dict example_reader))"
    by (simp add: example_reader_def example_fields_def py_def)
  have k: "map call_key (fst (copy_metadata (fields_dict example_reader)))
        = [Some (py ''answer''), Some (py ''names'')]"
    by (simp add: example_reader_def example_metadata)
  from copy_loop_no_duplicate_key [OF d, of "\<lambda>t. 4" "py ''out.gguf''" "py ''beta''"] d
  show ?thesis
    unfolding k by blast
qed

section \<open>The container that is written\<close>
















section \<open>Two runs on the same input\<close>










end
